theory Spec2Isabelle
  imports Main "HOL-Library.Sublist"
begin

section \<open>Text model\<close>

text \<open>
  The program under study is \<^verbatim>\<open>icons/cleanup_project.py\<close>. Python strings are
  sequences of code points; they are modelled as \<^typ>\<open>string\<close>, so a character is one of
  the code points U+0000 .. U+00FF. The character classes below are Python's own on that
  range.
\<close>

abbreviation NL :: char where "NL \<equiv> CHR 0x0A"
abbreviation CR :: char where "CR \<equiv> CHR 0x0D"
abbreviation TAB :: char where "TAB \<equiv> CHR 0x09"
abbreviation SPC :: char where "SPC \<equiv> CHR 0x20"

text \<open>The class \<^verbatim>\<open>[ \t]\<close> of the regular expressions.\<close>

definition is_hws :: "char \<Rightarrow> bool" where
  "is_hws c = (c = SPC \<or> c = TAB)"

text \<open>\<^verbatim>\<open>str.isspace\<close> (also \<^verbatim>\<open>\s\<close> of \<^verbatim>\<open>re\<close> and the characters \<^verbatim>\<open>str.lstrip()\<close> removes).\<close>

definition py_isspace :: "char \<Rightarrow> bool" where
  "py_isspace c = (c \<in> set [CHR 0x09, CHR 0x0A, CHR 0x0B, CHR 0x0C, CHR 0x0D,
      CHR 0x1C, CHR 0x1D, CHR 0x1E, CHR 0x1F, CHR 0x20, CHR 0x85, CHR 0xA0])"

text \<open>\<^verbatim>\<open>str.lower\<close>, character by character.\<close>

definition py_lower_char :: "char \<Rightarrow> char" where
  "py_lower_char c =
     (let n = (of_char c :: nat)
      in if (65 \<le> n \<and> n \<le> 90) \<or> (192 \<le> n \<and> n \<le> 222 \<and> n \<noteq> 215)
         then char_of (n + 32) else c)"

definition py_lower :: "string \<Rightarrow> string" where
  "py_lower s = map py_lower_char s"

text \<open>\<^verbatim>\<open>str.lstrip()\<close> and \<^verbatim>\<open>str.startswith\<close>.\<close>

definition py_lstrip :: "string \<Rightarrow> string" where
  "py_lstrip s = dropWhile py_isspace s"

definition startswith :: "string \<Rightarrow> string \<Rightarrow> bool" where
  "startswith s p = prefix p s"

definition endswith :: "string \<Rightarrow> string \<Rightarrow> bool" where
  "endswith s p = suffix p s"

text \<open>The substring test \<^verbatim>\<open>kw in s\<close>: try every start position from the left.\<close>

fun py_in :: "string \<Rightarrow> string \<Rightarrow> bool" where
  "py_in kw [] = (kw = [])"
| "py_in kw (c # cs) = (prefix kw (c # cs) \<or> py_in kw cs)"

section \<open>Whitespace normalizer\<close>

text \<open>The anchor \<^verbatim>\<open>$\<close> under \<^verbatim>\<open>re.MULTILINE\<close>: the end of the text, or just before a newline.\<close>

fun at_eol :: "string \<Rightarrow> bool" where
  "at_eol [] = True"
| "at_eol (c # cs) = (c = NL)"

text \<open>
  \<^verbatim>\<open>re.sub(r"[ \t]+$", "", text, flags=re.MULTILINE)\<close>: at each position from the left the
  greedy run of blanks is tried; it matches when the anchor holds behind it, is then deleted,
  and the scan goes on behind the match. Otherwise the character is copied.
\<close>

function sub_trailing_ws :: "string \<Rightarrow> string" where
  "sub_trailing_ws [] = []"
| "sub_trailing_ws (c # cs) =
     (if is_hws c \<and> at_eol (dropWhile is_hws cs)
      then sub_trailing_ws (dropWhile is_hws cs)
      else c # sub_trailing_ws cs)"
  by pat_completeness auto
termination
  by (relation "measure length") (auto simp: length_dropWhile_le less_Suc_eq_le)

text \<open>
  \<^verbatim>\<open>re.sub(r"\n{3,}", "\n\n", text)\<close>: a greedy run of three or more newlines is replaced
  by two.
\<close>

function sub_newline_runs :: "string \<Rightarrow> string" where
  "sub_newline_runs [] = []"
| "sub_newline_runs (c # cs) =
     (if c = NL \<and> 2 \<le> length (takeWhile (\<lambda>x. x = NL) cs)
      then NL # NL # sub_newline_runs (dropWhile (\<lambda>x. x = NL) cs)
      else c # sub_newline_runs cs)"
  by pat_completeness auto
termination
  by (relation "measure length") (auto simp: length_dropWhile_le less_Suc_eq_le)

definition cleanup_empty_lines :: "string \<Rightarrow> string" where
  "cleanup_empty_lines txt =
     (let t1 = sub_trailing_ws txt;
          t2 = sub_newline_runs t1
      in if \<not> endswith t2 [NL] \<and> t2 \<noteq> [] then t2 @ [NL] else t2)"

text \<open>
  \<^verbatim>\<open>str.split("\n")\<close>, the lines in the sense of the anchor \<^verbatim>\<open>$\<close>, and what the
  specification asks of the normalizer's result.
\<close>

fun split_nl :: "string \<Rightarrow> string list" where
  "split_nl [] = [[]]"
| "split_nl (c # cs) =
     (if c = NL then [] # split_nl cs
      else (case split_nl cs of [] \<Rightarrow> [[c]] | l # ls \<Rightarrow> (c # l) # ls))"

definition ends_in_blank :: "string \<Rightarrow> bool" where
  "ends_in_blank l = (l \<noteq> [] \<and> is_hws (last l))"

definition one_trailing_newline :: "string \<Rightarrow> bool" where
  "one_trailing_newline r = (endswith r [NL] \<and> \<not> endswith r [NL, NL])"

text \<open>The two invariants of the normalizer, as recursive checks.\<close>

fun trailing_free :: "string \<Rightarrow> bool" where
  "trailing_free [] = True"
| "trailing_free (c # cs) = (\<not> (is_hws c \<and> at_eol cs) \<and> trailing_free cs)"

fun nl3_free :: "string \<Rightarrow> bool" where
  "nl3_free [] = True"
| "nl3_free (c # cs) =
     (\<not> (c = NL \<and> 2 \<le> length (takeWhile (\<lambda>x. x = NL) cs)) \<and> nl3_free cs)"

section \<open>Keyword policy\<close>

text \<open>
  \<^verbatim>\<open>should_keep_py_comment\<close> and \<^verbatim>\<open>should_keep_sh_comment\<close>; a keyword set is a
  \<^verbatim>\<open>Set[str]\<close>, and \<^verbatim>\<open>any\<close> over it is the bounded existential.
\<close>

definition should_keep_py_comment :: "string \<Rightarrow> string set \<Rightarrow> bool" where
  "should_keep_py_comment comment_text keep_keywords =
     (let lower = py_lower comment_text
      in \<exists>kw\<in>keep_keywords. py_in kw lower)"

definition should_keep_sh_comment :: "string \<Rightarrow> string set \<Rightarrow> bool" where
  "should_keep_sh_comment comment_line keep_keywords =
     (let text_part = py_lstrip (drop 1 (py_lstrip comment_line));
          lower = py_lower text_part
      in \<exists>kw\<in>keep_keywords. py_in kw lower)"

section \<open>Lines, shebang and encoding cookie\<close>

text \<open>
  \<^verbatim>\<open>str.splitlines(keepends=True)\<close>: a line ends at a line boundary, which stays at the end
  of the line; \<^verbatim>\<open>\r\n\<close> is one boundary.
\<close>

definition is_linebreak :: "char \<Rightarrow> bool" where
  "is_linebreak c = (c \<in> set [CHR 0x0A, CHR 0x0B, CHR 0x0C, CHR 0x0D,
      CHR 0x1C, CHR 0x1D, CHR 0x1E, CHR 0x85])"

fun splitlines :: "string \<Rightarrow> string list" where
  "splitlines [] = []"
| "splitlines [c] = [[c]]"
| "splitlines (c # d # cs) =
     (if c = CR \<and> d = NL then [CR, NL] # splitlines cs
      else if is_linebreak c then [c] # splitlines (d # cs)
      else (case splitlines (d # cs) of [] \<Rightarrow> [[c]] | l # ls \<Rightarrow> (c # l) # ls))"

definition has_shebang :: "string \<Rightarrow> bool" where
  "has_shebang line = startswith line ''#!''"

text \<open>
  \<^verbatim>\<open>ENCODING_COOKIE_RE = re.compile(r"coding[:=]\s*([-\.\w]+)")\<close> and its \<^verbatim>\<open>search\<close>.
  \<^verbatim>\<open>\w\<close> is \<^verbatim>\<open>str.isalnum\<close> or the underscore.
\<close>

definition py_isword :: "char \<Rightarrow> bool" where
  "py_isword c =
     (let n = (of_char c :: nat)
      in (48 \<le> n \<and> n \<le> 57) \<or> (65 \<le> n \<and> n \<le> 90) \<or> (97 \<le> n \<and> n \<le> 122) \<or> n = 95 \<or>
         n = 170 \<or> n = 178 \<or> n = 179 \<or> n = 181 \<or> n = 185 \<or> n = 186 \<or>
         (188 \<le> n \<and> n \<le> 190) \<or> (192 \<le> n \<and> n \<noteq> 215 \<and> n \<noteq> 247))"

definition cookie_char :: "char \<Rightarrow> bool" where
  "cookie_char c = (c = CHR ''-'' \<or> c = CHR ''.'' \<or> py_isword c)"

definition cookie_at :: "string \<Rightarrow> bool" where
  "cookie_at t =
     (prefix ''coding'' t \<and>
      (case drop 6 t of
         [] \<Rightarrow> False
       | d # rest \<Rightarrow> (d = CHR '':'' \<or> d = CHR ''='') \<and>
           (case dropWhile py_isspace rest of [] \<Rightarrow> False | x # _ \<Rightarrow> cookie_char x)))"

fun has_encoding_cookie :: "string \<Rightarrow> bool" where
  "has_encoding_cookie [] = False"
| "has_encoding_cookie (c # cs) = (cookie_at (c # cs) \<or> has_encoding_cookie cs)"

section \<open>Shell stripper\<close>

definition strip_shell_comments :: "string \<Rightarrow> string set \<Rightarrow> string" where
  "strip_shell_comments source keep_keywords =
     (let lines = splitlines source
      in if lines = [] then []
         else
           let (new_lines0, start_index) =
                 (if has_shebang (hd lines) then ([hd lines], 1) else ([], 0));
               new_lines =
                 foldl (\<lambda>acc line.
                    let stripped_line = py_lstrip line
                    in if startswith stripped_line ''#''
                       then (if should_keep_sh_comment stripped_line keep_keywords
                             then acc @ [line] else acc)
                       else acc @ [line])
                   new_lines0 (drop start_index lines)
           in cleanup_empty_lines (concat new_lines))"

text \<open>The reading of the specification: a line-by-line rule, for comparison.\<close>

definition sh_comment_line :: "string \<Rightarrow> bool" where
  "sh_comment_line line = (case py_lstrip line of [] \<Rightarrow> False | c # _ \<Rightarrow> c = CHR ''#'')"

definition sh_comment_text :: "string \<Rightarrow> string" where
  "sh_comment_text line = py_lower (py_lstrip (drop 1 (py_lstrip line)))"

definition sh_line_kept :: "string set \<Rightarrow> string \<Rightarrow> bool" where
  "sh_line_kept keep_keywords line =
     (if sh_comment_line line
      then (\<exists>kw\<in>keep_keywords. sublist kw (sh_comment_text line))
      else True)"

definition sh_lines_spec :: "string set \<Rightarrow> string list \<Rightarrow> string list" where
  "sh_lines_spec keep_keywords lines =
     (case lines of
        [] \<Rightarrow> []
      | l # ls \<Rightarrow> (if has_shebang l \<or> sh_line_kept keep_keywords l then [l] else []) @
                 filter (sh_line_kept keep_keywords) ls)"

text \<open>
  What the verdict on a line rests on. \<^verbatim>\<open>str.rstrip()\<close>; the segments of a text between line
  boundary characters; and the summary of a text that the normalizer leaves alone: the first
  segment and the later segments that are not blank, each without its trailing whitespace.
\<close>

definition py_rstrip :: "string \<Rightarrow> string" where
  "py_rstrip s = rev (dropWhile py_isspace (rev s))"

fun segs :: "string \<Rightarrow> string list" where
  "segs [] = [[]]"
| "segs (c # cs) =
     (if is_linebreak c then [] # segs cs else (c # hd (segs cs)) # tl (segs cs))"


definition text_norm :: "string \<Rightarrow> string \<times> string list" where
  "text_norm t =
     (py_rstrip (hd (segs t)), filter (\<lambda>k. k \<noteq> []) (map py_rstrip (tl (segs t))))"



text \<open>
  The shape of the lines \<^const>\<open>splitlines\<close> returns: behind the first line boundary of a
  line only line boundaries follow, and every line but the last ends with one.
\<close>

definition line_shape :: "string \<Rightarrow> bool" where
  "line_shape l = list_all is_linebreak (dropWhile (\<lambda>c. \<not> is_linebreak c) l)"

definition ends_lb :: "string \<Rightarrow> bool" where
  "ends_lb l = (l \<noteq> [] \<and> is_linebreak (last l))"

fun lines_ok :: "string list \<Rightarrow> bool" where
  "lines_ok [] = True"
| "lines_ok [l] = line_shape l"
| "lines_ok (l # m # ls) = (line_shape l \<and> ends_lb l \<and> lines_ok (m # ls))"


section \<open>HTML, CSS and JS strippers\<close>

text \<open>
  \<^verbatim>\<open>re.sub(r"<!--.*?-->", "", source, flags=re.DOTALL)\<close> and
  \<^verbatim>\<open>re.sub(r"/\*.*?\*/", "", source, flags=re.DOTALL)\<close>: at each position from the left,
  the opening delimiter is tried; the lazy \<^verbatim>\<open>.*?\<close> then stops at the first closing
  delimiter behind it. A match is deleted and the scan goes on behind it; where there is no
  match the character is copied. \<^term>\<open>find_after cls t\<close> is the text behind the first
  occurrence of \<^term>\<open>cls\<close> in \<^term>\<open>t\<close>.
\<close>

fun find_after :: "string \<Rightarrow> string \<Rightarrow> string option" where
  "find_after cls [] = (if cls = [] then Some [] else None)"
| "find_after cls (c # cs) =
     (if prefix cls (c # cs) then Some (drop (length cls) (c # cs)) else find_after cls cs)"

lemma find_after_length: "find_after cls t = Some r \<Longrightarrow> length r \<le> length t"
  by (induction t) (auto split: if_splits simp: le_SucI)

function sub_delimited :: "string \<Rightarrow> string \<Rightarrow> string \<Rightarrow> string" where
  "sub_delimited opn cls [] = []"
| "sub_delimited opn cls (c # cs) =
     (if opn \<noteq> [] \<and> prefix opn (c # cs)
      then (case find_after cls (drop (length opn) (c # cs)) of
              Some rest \<Rightarrow> sub_delimited opn cls rest
            | None \<Rightarrow> c # sub_delimited opn cls cs)
      else c # sub_delimited opn cls cs)"
  by pat_completeness auto
termination
proof (relation "measure (\<lambda>(opn, cls, s). length s)")
  fix opn cls :: string and c :: char and cs rest :: string
  assume "opn \<noteq> [] \<and> prefix opn (c # cs)"
    and "find_after cls (drop (length opn) (c # cs)) = Some rest"
  then have "length rest \<le> length (drop (length opn) (c # cs))" and "opn \<noteq> []"
    by (auto dest: find_after_length)
  then show "((opn, cls, rest), (opn, cls, c # cs)) \<in> measure (\<lambda>(opn, cls, s). length s)"
    by (cases opn) auto
qed auto

text \<open>
  \<^verbatim>\<open>re.sub(r"(?<!:)//.*", "", cleaned)\<close>: the first argument is the character before the
  position (the lookbehind reads the text that is scanned); the dot stops at a newline.
\<close>

function sub_line_comments :: "char option \<Rightarrow> string \<Rightarrow> string" where
  "sub_line_comments prev [] = []"
| "sub_line_comments prev (c # cs) =
     (if prefix ''//'' (c # cs) \<and> prev \<noteq> Some CHR '':''
      then sub_line_comments (Some (last (c # takeWhile (\<lambda>x. x \<noteq> NL) cs)))
             (dropWhile (\<lambda>x. x \<noteq> NL) cs)
      else c # sub_line_comments (Some c) cs)"
  by pat_completeness auto
termination
  by (relation "measure (\<lambda>(b, s). length s)") (auto simp: length_dropWhile_le less_Suc_eq_le)

definition strip_html_comments :: "string \<Rightarrow> string" where
  "strip_html_comments source =
     (let cleaned = sub_delimited ''<!--'' ''-->'' source in cleanup_empty_lines cleaned)"

definition strip_css_comments :: "string \<Rightarrow> string" where
  "strip_css_comments source =
     (let cleaned = sub_delimited ''/*'' ''*/'' source in cleanup_empty_lines cleaned)"

definition strip_js_comments :: "string \<Rightarrow> string" where
  "strip_js_comments source =
     (let cleaned = sub_delimited ''/*'' ''*/'' source;
          cleaned = sub_line_comments None cleaned
      in cleanup_empty_lines cleaned)"

text \<open>
  The reading of the specification, for comparison. For the block comments: find the first
  opening delimiter (\<^verbatim>\<open>str.find\<close>), then the nearest closing delimiter behind it, delete
  from the one through the other and go on behind; stop when either is missing.
\<close>

fun find_sub :: "string \<Rightarrow> string \<Rightarrow> nat option" where
  "find_sub p [] = (if p = [] then Some 0 else None)"
| "find_sub p (c # cs) = (if prefix p (c # cs) then Some 0 else map_option Suc (find_sub p cs))"

lemma find_sub_bound: "find_sub p s = Some i \<Longrightarrow> i + length p \<le> length s"
  by (induction s arbitrary: i) (auto split: if_splits dest: prefix_length_le)

function spans_spec :: "string \<Rightarrow> string \<Rightarrow> string \<Rightarrow> string" where
  "spans_spec opn cls s =
     (if opn = [] then s
      else (case find_sub opn s of
              None \<Rightarrow> s
            | Some i \<Rightarrow>
                (case find_sub cls (drop (i + length opn) s) of
                   None \<Rightarrow> s
                 | Some j \<Rightarrow>
                     take i s @ spans_spec opn cls (drop (i + length opn + j + length cls) s))))"
  by pat_completeness auto
termination
proof (relation "measure (\<lambda>(opn, cls, s). length s)")
  fix opn cls s :: string and i j :: nat
  assume "opn \<noteq> []" and "find_sub opn s = Some i"
  then have "i + length opn \<le> length s" and "opn \<noteq> []"
    by (auto dest: find_sub_bound)
  then show "((opn, cls, drop (i + length opn + j + length cls) s), (opn, cls, s))
      \<in> measure (\<lambda>(opn, cls, s). length s)"
    by (cases opn) auto
qed auto

declare spans_spec.simps [simp del]

text \<open>
  For the line comments: in each line (between newlines), the comment starts at the first
  \<^verbatim>\<open>//\<close> that is not directly behind a colon, and the line is cut there.
\<close>

definition comment_start :: "string \<Rightarrow> nat \<Rightarrow> bool" where
  "comment_start l i =
     (i + 1 < length l \<and> l ! i = CHR ''/'' \<and> l ! (i + 1) = CHR ''/'' \<and>
      (i = 0 \<or> l ! (i - 1) \<noteq> CHR '':''))"

definition js_line_spec :: "string \<Rightarrow> string" where
  "js_line_spec l =
     (case find (comment_start l) [0..<length l] of None \<Rightarrow> l | Some i \<Rightarrow> take i l)"

fun join_nl :: "string list \<Rightarrow> string" where
  "join_nl [] = []"
| "join_nl [l] = l"
| "join_nl (l # m # ls) = l @ NL # join_nl (m # ls)"

definition line_comments_spec :: "string \<Rightarrow> string" where
  "line_comments_spec t = join_nl (map js_line_spec (split_nl t))"

text \<open>
  The same cut with the character before the line given, as the scan meets it.
\<close>

fun cut_line :: "char option \<Rightarrow> string \<Rightarrow> string" where
  "cut_line prev [] = []"
| "cut_line prev (c # cs) =
     (if prefix ''//'' (c # cs) \<and> prev \<noteq> Some CHR '':'' then []
      else c # cut_line (Some c) cs)"

definition comment_start_after :: "char option \<Rightarrow> string \<Rightarrow> nat \<Rightarrow> bool" where
  "comment_start_after prev l i =
     (i + 1 < length l \<and> l ! i = CHR ''/'' \<and> l ! (i + 1) = CHR ''/'' \<and>
      (if i = 0 then prev \<noteq> Some CHR '':'' else l ! (i - 1) \<noteq> CHR '':''))"

text \<open>
  \<^term>\<open>closers_within cls pre u\<close>: every occurrence of \<^term>\<open>cls\<close> in \<^term>\<open>pre @ u\<close> ends
  inside \<^term>\<open>pre\<close>.
\<close>

definition closers_within :: "string \<Rightarrow> string \<Rightarrow> string \<Rightarrow> bool" where
  "closers_within cls pre u =
     (\<forall>i\<in>set [0..<Suc (length (pre @ u))].
        prefix cls (drop i (pre @ u)) \<longrightarrow> i + length cls \<le> length pre)"

definition ends_within :: "string \<Rightarrow> string \<Rightarrow> string \<Rightarrow> bool" where
  "ends_within cls p u = (\<forall>i. prefix cls (drop i (p @ u)) \<longrightarrow> i + length cls \<le> length p)"



section \<open>Python stripper\<close>

text \<open>
  The tokenizer and \<^verbatim>\<open>untokenize\<close> belong to Python's standard library, not to this
  repository: they are parameters of the model. \<^verbatim>\<open>tokenize.tokenize\<close> is a generator, so a
  call yields a list of tokens and then either ends or raises; \<^verbatim>\<open>untokenize\<close> (with the
  decoding that follows it) returns a text or raises.
\<close>

datatype py_exception =
  TokenError | IndentationError | SyntaxError | UnicodeDecodeError | OSError | ValueError

datatype token_kind = COMMENT | OTHER

record token =
  tok_type :: token_kind
  tok_string :: string
  tok_start :: "nat \<times> nat"
  tok_end :: "nat \<times> nat"
  tok_line :: string

type_synonym tokenizer = "string \<Rightarrow> token list \<times> py_exception option"

type_synonym untokenizer = "token list \<Rightarrow> py_exception + string"

text \<open>Lines 87 to 95: the preserved prefix and the index of the first line left.\<close>

definition preserved_prefix :: "string list \<Rightarrow> string list \<times> nat" where
  "preserved_prefix lines =
     (let (pp, i) = (if lines \<noteq> [] \<and> has_shebang (lines ! 0) then ([lines ! 0], 1) else ([], 0))
      in if i < length lines \<and> has_encoding_cookie (lines ! i)
         then (pp @ [lines ! i], i + 1) else (pp, i))"

definition py_remaining :: "string \<Rightarrow> string" where
  "py_remaining source =
     (let lines = splitlines source in concat (drop (snd (preserved_prefix lines)) lines))"

definition strip_python_comments ::
  "tokenizer \<Rightarrow> untokenizer \<Rightarrow> string \<Rightarrow> string set \<Rightarrow> py_exception + string" where
  "strip_python_comments tokenize untokenize source keep_keywords =
     (let lines = splitlines source;
          (pp, remaining_start_index) = preserved_prefix lines;
          remaining = concat (drop remaining_start_index lines);
          (yielded, raised) = tokenize remaining;
          tokens = filter (\<lambda>tok. if tok_type tok = COMMENT
                                  then should_keep_py_comment (tok_string tok) keep_keywords
                                  else True) yielded
      in case raised of
           Some TokenError \<Rightarrow> Inr source
         | Some e \<Rightarrow> Inl e
         | None \<Rightarrow>
             (case untokenize tokens of
                Inl e \<Rightarrow> Inr source
              | Inr processed_text \<Rightarrow> Inr (concat pp @ cleanup_empty_lines processed_text)))"

section \<open>Change-aware writer\<close>

text \<open>
  The file system, as far as \<^verbatim>\<open>write_if_changed\<close> sees it: what a path holds (no
  file, bytes that are not UTF-8, or a text), and whether it can be read and written.
  \<^verbatim>\<open>Path.read_text\<close> opens in text mode, which turns \<^verbatim>\<open>\r\n\<close> and \<^verbatim>\<open>\r\<close> into
  \<^verbatim>\<open>\n\<close>; \<^verbatim>\<open>Path.write_text\<close> is taken on a POSIX system, where it writes the text as it
  is. Both raise when the operating system or the decoder refuses.
\<close>

type_synonym path = string

datatype file_content = NoFile | NotUtf8 | Text string

record filesystem =
  stored :: "path \<Rightarrow> file_content"
  can_read :: "path \<Rightarrow> bool"
  can_write :: "path \<Rightarrow> bool"

fun universal_newlines :: "string \<Rightarrow> string" where
  "universal_newlines [] = []"
| "universal_newlines [c] = [if c = CR then NL else c]"
| "universal_newlines (c # d # cs) =
     (if c = CR \<and> d = NL then NL # universal_newlines cs
      else (if c = CR then NL else c) # universal_newlines (d # cs))"

definition read_text :: "filesystem \<Rightarrow> path \<Rightarrow> py_exception + string" where
  "read_text fs p =
     (if can_read fs p
      then (case stored fs p of
              NoFile \<Rightarrow> Inl OSError
            | NotUtf8 \<Rightarrow> Inl UnicodeDecodeError
            | Text t \<Rightarrow> Inr (universal_newlines t))
      else Inl OSError)"

definition write_text :: "filesystem \<Rightarrow> path \<Rightarrow> string \<Rightarrow> py_exception + filesystem" where
  "write_text fs p new_content =
     (if can_write fs p
      then Inr (fs\<lparr>stored := (stored fs)(p := Text new_content)\<rparr>)
      else Inl OSError)"

definition write_if_changed ::
  "filesystem \<Rightarrow> path \<Rightarrow> string \<Rightarrow> bool \<Rightarrow> (py_exception + bool) \<times> filesystem" where
  "write_if_changed fs p new_content dry_run =
     (let old_content = (case read_text fs p of Inl e \<Rightarrow> None | Inr t \<Rightarrow> Some t)
      in if old_content = Some new_content then (Inr False, fs)
         else if dry_run then (Inr True, fs)
         else (case write_text fs p new_content of
                 Inl e \<Rightarrow> (Inl e, fs)
               | Inr fs' \<Rightarrow> (Inr True, fs')))"

text \<open>A file system where no path holds a file and nothing can be created.\<close>

definition locked_fs :: filesystem where
  "locked_fs = \<lparr>stored = (\<lambda>p. NoFile), can_read = (\<lambda>p. True), can_write = (\<lambda>p. False)\<rparr>"

section \<open>Properties of the whitespace normalizer\<close>

lemma hws_not_NL: "is_hws c \<Longrightarrow> c \<noteq> NL"
  by (auto simp: is_hws_def)

lemma sub_trailing_ws_dropWhile:
  "at_eol (dropWhile is_hws cs) \<Longrightarrow> sub_trailing_ws (dropWhile is_hws cs) = sub_trailing_ws cs"
  by (cases cs) (auto split: if_splits)

lemma at_eol_sub_trailing_ws: "at_eol (sub_trailing_ws cs) = at_eol (dropWhile is_hws cs)"
proof (induction cs)
  case Nil
  show ?case by simp
next
  case (Cons c cs)
  show ?case
  proof (cases "is_hws c")
    case True
    then have "c \<noteq> NL" by (rule hws_not_NL)
    with True Cons show ?thesis by (simp add: sub_trailing_ws_dropWhile)
  next
    case False
    then show ?thesis by simp
  qed
qed

lemma sub_trailing_ws_Cons:
  "sub_trailing_ws (c # cs) =
     (if is_hws c \<and> at_eol (sub_trailing_ws cs) then sub_trailing_ws cs else c # sub_trailing_ws cs)"
  by (simp add: at_eol_sub_trailing_ws sub_trailing_ws_dropWhile)

lemma trailing_free_sub_trailing_ws: "trailing_free (sub_trailing_ws t)"
  by (induction t) (auto simp: sub_trailing_ws_Cons simp del: sub_trailing_ws.simps(2))

lemma sub_trailing_ws_id: "trailing_free t \<Longrightarrow> sub_trailing_ws t = t"
  by (induction t) (auto simp: sub_trailing_ws_Cons simp del: sub_trailing_ws.simps(2))


lemma trailing_free_dropWhile: "trailing_free t \<Longrightarrow> trailing_free (dropWhile P t)"
  by (induction t) auto

lemma at_eol_sub_newline_runs: "at_eol (sub_newline_runs t) = at_eol t"
  by (cases t) auto

lemma trailing_free_sub_newline_runs: "trailing_free t \<Longrightarrow> trailing_free (sub_newline_runs t)"
proof (induction t rule: sub_newline_runs.induct)
  case 1
  show ?case by simp
next
  case (2 c cs)
  show ?case
  proof (cases "c = NL \<and> 2 \<le> length (takeWhile (\<lambda>x. x = NL) cs)")
    case True
    from "2.prems" have "trailing_free (dropWhile (\<lambda>x. x = NL) cs)"
      by (simp add: trailing_free_dropWhile)
    with True "2.IH"(1) have "trailing_free (sub_newline_runs (dropWhile (\<lambda>x. x = NL) cs))"
      by simp
    with True show ?thesis by (simp add: is_hws_def)
  next
    case False
    from "2.prems" have "trailing_free cs" by simp
    with False "2.IH"(2) have "trailing_free (sub_newline_runs cs)" by simp
    with False "2.prems" show ?thesis by (auto simp: at_eol_sub_newline_runs)
  qed
qed


lemma takeWhile_dropWhile_Nil: "takeWhile P (dropWhile P xs) = []"
  by (induction xs) simp_all

lemma takeWhile_sub_newline_runs:
  "length (takeWhile (\<lambda>x. x = NL) (sub_newline_runs t)) = min 2 (length (takeWhile (\<lambda>x. x = NL) t))"
proof (induction t rule: sub_newline_runs.induct)
  case 1
  show ?case by simp
next
  case (2 c cs)
  show ?case
  proof (cases "c = NL \<and> 2 \<le> length (takeWhile (\<lambda>x. x = NL) cs)")
    case True
    with "2.IH"(1)
    have "length (takeWhile (\<lambda>x. x = NL) (sub_newline_runs (dropWhile (\<lambda>x. x = NL) cs))) = 0"
      by (simp add: takeWhile_dropWhile_Nil)
    with True show ?thesis by simp
  next
    case False
    with "2.IH"(2)
    have ih: "length (takeWhile (\<lambda>x. x = NL) (sub_newline_runs cs)) = min 2 (length (takeWhile (\<lambda>x. x = NL) cs))"
      by simp
    show ?thesis
    proof (cases "c = NL")
      case True
      with False have "\<not> 2 \<le> length (takeWhile (\<lambda>x. x = NL) cs)" by simp
      with True ih show ?thesis by simp
    next
      case False
      then show ?thesis by simp
    qed
  qed
qed

lemma nl3_free_dropWhile: "nl3_free t \<Longrightarrow> nl3_free (dropWhile P t)"
  by (induction t) auto

lemma nl3_free_sub_newline_runs: "nl3_free (sub_newline_runs t)"
proof (induction t rule: sub_newline_runs.induct)
  case 1
  show ?case by simp
next
  case (2 c cs)
  show ?case
  proof (cases "c = NL \<and> 2 \<le> length (takeWhile (\<lambda>x. x = NL) cs)")
    case True
    have "length (takeWhile (\<lambda>x. x = NL) (sub_newline_runs (dropWhile (\<lambda>x. x = NL) cs))) = 0"
      by (simp add: takeWhile_sub_newline_runs takeWhile_dropWhile_Nil)
    moreover from True "2.IH"(1) have "nl3_free (sub_newline_runs (dropWhile (\<lambda>x. x = NL) cs))"
      by simp
    ultimately show ?thesis using True by simp
  next
    case False
    with "2.IH"(2) have "nl3_free (sub_newline_runs cs)" by simp
    with False show ?thesis by (auto simp: takeWhile_sub_newline_runs)
  qed
qed

lemma sub_newline_runs_id: "nl3_free t \<Longrightarrow> sub_newline_runs t = t"
  by (induction t) auto

lemma at_eol_append_NL: "at_eol (cs @ [NL]) = at_eol cs"
  by (cases cs) auto

lemma trailing_free_append_NL: "trailing_free t \<Longrightarrow> trailing_free (t @ [NL])"
  by (induction t) (auto simp: at_eol_append_NL is_hws_def)

lemma takeWhile_append_NL:
  "cs \<noteq> [] \<Longrightarrow> last cs \<noteq> NL \<Longrightarrow>
   takeWhile (\<lambda>x. x = NL) (cs @ [NL]) = takeWhile (\<lambda>x. x = NL) cs"
  by (induction cs) (auto split: if_splits)

lemma nl3_free_append_NL: "nl3_free t \<Longrightarrow> t \<noteq> [] \<Longrightarrow> last t \<noteq> NL \<Longrightarrow> nl3_free (t @ [NL])"
proof (induction t)
  case Nil
  then show ?case by simp
next
  case (Cons c cs)
  show ?case
  proof (cases "cs = []")
    case True
    with Cons.prems show ?thesis by simp
  next
    case False
    with Cons.prems have l: "last cs \<noteq> NL" by simp
    from Cons.prems have "nl3_free cs" by simp
    with Cons.IH False l have "nl3_free (cs @ [NL])" by simp
    moreover from Cons.prems have "\<not> (c = NL \<and> 2 \<le> length (takeWhile (\<lambda>x. x = NL) cs))" by simp
    ultimately show ?thesis using takeWhile_append_NL[OF False l] by simp
  qed
qed

lemma endswith_NL: "endswith t [NL] \<longleftrightarrow> t \<noteq> [] \<and> last t = NL"
  by (cases t rule: rev_cases) (auto simp: endswith_def)

lemma trailing_free_cleanup: "trailing_free (cleanup_empty_lines t)"
  by (simp add: cleanup_empty_lines_def Let_def trailing_free_append_NL
      trailing_free_sub_newline_runs trailing_free_sub_trailing_ws)

lemma nl3_free_cleanup: "nl3_free (cleanup_empty_lines t)"
  by (auto simp: cleanup_empty_lines_def Let_def nl3_free_append_NL
      nl3_free_sub_newline_runs endswith_NL)

lemma cleanup_ends: "cleanup_empty_lines t = [] \<or> last (cleanup_empty_lines t) = NL"
  by (auto simp: cleanup_empty_lines_def Let_def endswith_NL)

lemma cleanup_fixpoint:
  "trailing_free r \<Longrightarrow> nl3_free r \<Longrightarrow> r = [] \<or> last r = NL \<Longrightarrow> cleanup_empty_lines r = r"
  by (auto simp: cleanup_empty_lines_def Let_def sub_trailing_ws_id sub_newline_runs_id endswith_NL)

lemma cleanup_idem: "cleanup_empty_lines (cleanup_empty_lines x) = cleanup_empty_lines x"
  by (rule cleanup_fixpoint[OF trailing_free_cleanup nl3_free_cleanup cleanup_ends])


lemma py_in_sublist: "py_in kw s \<longleftrightarrow> sublist kw s"
  by (induction s) (auto simp: sublist_Cons_right)

lemma split_nl_nonempty: "split_nl t \<noteq> []"
  by (induction t) (auto split: list.splits)

lemma at_eol_hd_split: "at_eol t \<longleftrightarrow> hd (split_nl t) = []"
  by (cases t) (auto split: list.splits)

lemma trailing_free_lines: "trailing_free t \<longleftrightarrow> (\<forall>l\<in>set (split_nl t). \<not> ends_in_blank l)"
proof (induction t)
  case Nil
  show ?case by (simp add: ends_in_blank_def)
next
  case (Cons c cs)
  obtain l ls where sp: "split_nl cs = l # ls"
    using split_nl_nonempty[of cs] by (cases "split_nl cs") auto
  have eol: "at_eol cs \<longleftrightarrow> l = []" using sp by (simp add: at_eol_hd_split)
  show ?case
  proof (cases "c = NL")
    case True
    then show ?thesis using Cons by (simp add: ends_in_blank_def is_hws_def)
  next
    case False
    then show ?thesis using Cons sp eol by (auto simp: ends_in_blank_def)
  qed
qed

lemma prefix_NL2: "prefix [NL, NL] cs \<longleftrightarrow> 2 \<le> length (takeWhile (\<lambda>x. x = NL) cs)"
proof (cases cs)
  case Nil
  then show ?thesis by simp
next
  case (Cons a as)
  then show ?thesis by (cases as) auto
qed

lemma nl3_free_sublist: "nl3_free t \<longleftrightarrow> \<not> sublist [NL, NL, NL] t"
  by (induction t) (auto simp: sublist_Cons_right prefix_NL2[symmetric])


lemma sub_trailing_ws_Nil_iff: "sub_trailing_ws t = [] \<longleftrightarrow> (\<forall>c\<in>set t. is_hws c)"
  by (induction t) (auto simp: sub_trailing_ws_Cons simp del: sub_trailing_ws.simps(2))

lemma sub_newline_runs_Nil_iff: "sub_newline_runs t = [] \<longleftrightarrow> t = []"
  by (cases t) auto

lemma cleanup_Nil_iff: "cleanup_empty_lines t = [] \<longleftrightarrow> (\<forall>c\<in>set t. is_hws c)"
  by (auto simp: cleanup_empty_lines_def Let_def sub_trailing_ws_Nil_iff sub_newline_runs_Nil_iff)

text \<open>
  Claim C2, as the code has it. The result of \<^const>\<open>cleanup_empty_lines\<close> has no line
  (in the sense of \<^verbatim>\<open>$\<close>: the pieces between newlines) that ends in a space or a tab, and
  no three consecutive newlines. It is empty exactly when the input holds nothing but
  spaces and tabs; otherwise it ends with a newline. The code appends a newline only when
  none is there, so a result may end with two newlines, and never with three.
\<close>

theorem cleanup_empty_lines_shape:
  "(\<forall>l\<in>set (split_nl (cleanup_empty_lines t)). \<not> ends_in_blank l) \<and>
   \<not> sublist [NL, NL, NL] (cleanup_empty_lines t) \<and>
   (cleanup_empty_lines t = [] \<longleftrightarrow> (\<forall>c\<in>set t. is_hws c)) \<and>
   (cleanup_empty_lines t \<noteq> [] \<longrightarrow> endswith (cleanup_empty_lines t) [NL])"
proof -
  have "\<forall>l\<in>set (split_nl (cleanup_empty_lines t)). \<not> ends_in_blank l"
    using trailing_free_cleanup[of t] by (simp add: trailing_free_lines)
  moreover have "\<not> sublist [NL, NL, NL] (cleanup_empty_lines t)"
    using nl3_free_cleanup[of t] by (simp add: nl3_free_sublist)
  moreover have "cleanup_empty_lines t \<noteq> [] \<longrightarrow> endswith (cleanup_empty_lines t) [NL]"
    using cleanup_ends[of t] by (auto simp: endswith_NL)
  ultimately show ?thesis by (simp only: cleanup_Nil_iff simp_thms)
qed

theorem cleanup_empty_lines_shape_witness:
  "cleanup_empty_lines ''a  \<newline> \<newline>\<newline>\<newline>b '' = ''a\<newline>\<newline>b\<newline>'' \<and>
   \<not> sublist [NL, NL, NL] (cleanup_empty_lines ''a  \<newline> \<newline>\<newline>\<newline>b '') \<and>
   endswith (cleanup_empty_lines ''a  \<newline> \<newline>\<newline>\<newline>b '') [NL]"
proof -
  have e: "cleanup_empty_lines ''a  \<newline> \<newline>\<newline>\<newline>b '' = ''a\<newline>\<newline>b\<newline>''"
    by code_simp
  show ?thesis
    using cleanup_empty_lines_shape[of "''a  \<newline> \<newline>\<newline>\<newline>b ''"] by (simp add: e)
qed

text \<open>
  Claim C2 as the specification words it asks for exactly one trailing newline whenever the
  input is not empty. The code keeps two trailing newlines where the input has them.
\<close>

theorem cleanup_one_trailing_newline_counterexample:
  "\<not> (''a\<newline>\<newline>'' \<noteq> [] \<longrightarrow> one_trailing_newline (cleanup_empty_lines ''a\<newline>\<newline>''))"
proof -
  have e: "cleanup_empty_lines ''a\<newline>\<newline>'' = ''a\<newline>\<newline>''"
    by code_simp
  show ?thesis by (simp add: e one_trailing_newline_def endswith_def suffix_to_prefix)
qed

text \<open>
  Claim C3: the normalizer is idempotent,
  \<^verbatim>\<open>cleanup_empty_lines(cleanup_empty_lines(x)) == cleanup_empty_lines(x)\<close>.
\<close>

theorem cleanup_empty_lines_idempotent:
  "cleanup_empty_lines (cleanup_empty_lines x) = cleanup_empty_lines x"
  by (rule cleanup_idem)

theorem cleanup_empty_lines_idempotent_witness:
  "cleanup_empty_lines (cleanup_empty_lines ''x = 1 \<newline>\<newline>\<newline>\<newline>y'') =
   cleanup_empty_lines ''x = 1 \<newline>\<newline>\<newline>\<newline>y'' \<and>
   cleanup_empty_lines ''x = 1 \<newline>\<newline>\<newline>\<newline>y'' = ''x = 1\<newline>\<newline>y\<newline>''"
proof -
  have e: "cleanup_empty_lines ''x = 1 \<newline>\<newline>\<newline>\<newline>y'' = ''x = 1\<newline>\<newline>y\<newline>''"
    by code_simp
  show ?thesis
    using cleanup_empty_lines_idempotent[of "''x = 1 \<newline>\<newline>\<newline>\<newline>y''"] by (simp add: e)
qed

section \<open>Properties of the keyword policy\<close>

text \<open>
  Claim C9: \<^const>\<open>should_keep_py_comment\<close> holds exactly when some keyword of the set
  occurs as a substring of the lower-cased comment text, and never for the empty set.
\<close>

theorem should_keep_py_comment_iff:
  "(should_keep_py_comment comment_text keep_keywords \<longleftrightarrow>
      (\<exists>kw\<in>keep_keywords. \<exists>before after. py_lower comment_text = before @ kw @ after)) \<and>
   \<not> should_keep_py_comment comment_text {}"
  by (simp add: should_keep_py_comment_def py_in_sublist sublist_def)

theorem should_keep_py_comment_iff_witness:
  "should_keep_py_comment ''# NOQA: F401'' {''noqa'', ''pragma''} \<and>
   \<not> should_keep_py_comment ''# unused note'' {}"
proof -
  have "py_lower ''# NOQA: F401'' = ''# '' @ ''noqa'' @ '': f401''"
    by code_simp
  then have "\<exists>kw\<in>{''noqa'', ''pragma''}. \<exists>before after. py_lower ''# NOQA: F401'' = before @ kw @ after"
    by blast
  then show ?thesis
    using should_keep_py_comment_iff[of "''# NOQA: F401''" "{''noqa'', ''pragma''}"]
      should_keep_py_comment_iff[of "''# unused note''" "{}"]
    by blast
qed

section \<open>Properties of the Shell stripper\<close>

lemma py_lstrip_idem: "py_lstrip (py_lstrip l) = py_lstrip l"
  by (simp add: py_lstrip_def dropWhile_idem)

lemma startswith_hash: "startswith (py_lstrip line) ''#'' \<longleftrightarrow> sh_comment_line line"
  by (cases "py_lstrip line") (auto simp: startswith_def sh_comment_line_def)

lemma should_keep_sh_lstrip:
  "should_keep_sh_comment (py_lstrip line) K \<longleftrightarrow> (\<exists>kw\<in>K. sublist kw (sh_comment_text line))"
  by (simp add: should_keep_sh_comment_def sh_comment_text_def py_lstrip_idem py_in_sublist)

lemma sh_loop:
  "foldl (\<lambda>acc line.
      if startswith (py_lstrip line) ''#''
      then (if should_keep_sh_comment (py_lstrip line) K then acc @ [line] else acc)
      else acc @ [line]) acc0 ls
   = acc0 @ filter (sh_line_kept K) ls"
  by (induction ls arbitrary: acc0)
     (simp_all add: startswith_hash should_keep_sh_lstrip sh_line_kept_def)

lemma has_shebang_comment: "has_shebang l \<Longrightarrow> sh_comment_line l"
  by (auto simp: has_shebang_def startswith_def sh_comment_line_def py_lstrip_def py_isspace_def
      prefix_def)

lemma strip_shell_spec:
  "strip_shell_comments s K = cleanup_empty_lines (concat (sh_lines_spec K (splitlines s)))"
proof (cases "splitlines s")
  case Nil
  then show ?thesis
    by (simp add: strip_shell_comments_def sh_lines_spec_def cleanup_empty_lines_def endswith_def)
next
  case (Cons l ls)
  show ?thesis
  proof (cases "has_shebang l")
    case True
    then show ?thesis
      unfolding strip_shell_comments_def sh_lines_spec_def Cons Let_def
      by (simp add: sh_loop)
  next
    case False
    have "foldl (\<lambda>acc line.
      if startswith (py_lstrip line) ''#''
      then (if should_keep_sh_comment (py_lstrip line) K then acc @ [line] else acc)
      else acc @ [line]) [] (l # ls) = filter (sh_line_kept K) (l # ls)"
      by (simp only: sh_loop append_Nil)
    with False show ?thesis
      unfolding strip_shell_comments_def sh_lines_spec_def Cons Let_def
      by simp
  qed
qed

text \<open>
  Claim C6. Before normalization, \<^const>\<open>strip_shell_comments\<close> keeps the first line when it
  is a shebang, and keeps any line exactly when \<^const>\<open>sh_line_kept\<close> holds: a line whose
  left-stripped form begins with \<^verbatim>\<open>#\<close> stays (whole) if the text behind the \<^verbatim>\<open>#\<close>,
  left-stripped and lower-cased, contains a keyword, and goes otherwise; any other line stays,
  so an inline comment on a code line is never removed.
\<close>

theorem strip_shell_comments_lines:
  "(strip_shell_comments s K =
     cleanup_empty_lines (concat (case splitlines s of
        [] \<Rightarrow> []
      | l # ls \<Rightarrow> (if has_shebang l \<or> sh_line_kept K l then [l] else []) @
                 filter (sh_line_kept K) ls))) \<and>
   (sh_line_kept K line \<longleftrightarrow>
      (sh_comment_line line \<longrightarrow>
         (\<exists>kw\<in>K. \<exists>pre post. sh_comment_text line = pre @ kw @ post)))"
  using strip_shell_spec[of s K]
  by (simp add: sh_lines_spec_def sh_line_kept_def sublist_def)

theorem strip_shell_comments_lines_witness:
  "strip_shell_comments
     ''#!/bin/sh\<newline># shellcheck disable=SC2086\<newline>echo hi  # inline\<newline># plain comment\<newline>''
     {''shellcheck''} =
   ''#!/bin/sh\<newline># shellcheck disable=SC2086\<newline>echo hi  # inline\<newline>'' \<and>
   sh_line_kept {''shellcheck''} ''echo hi  # inline\<newline>'' \<and>
   \<not> sh_line_kept {''shellcheck''} ''# plain comment\<newline>''"
proof -
  have e: "strip_shell_comments
     ''#!/bin/sh\<newline># shellcheck disable=SC2086\<newline>echo hi  # inline\<newline># plain comment\<newline>''
     {''shellcheck''} =
   ''#!/bin/sh\<newline># shellcheck disable=SC2086\<newline>echo hi  # inline\<newline>''"
    by code_simp
  have c1: "\<not> sh_comment_line ''echo hi  # inline\<newline>''"
    by code_simp
  have c2: "sh_comment_line ''# plain comment\<newline>''"
    by code_simp
  have c3: "\<not> sublist ''shellcheck'' (sh_comment_text ''# plain comment\<newline>'')"
    by code_simp
  show ?thesis
    using strip_shell_comments_lines[of _ "{''shellcheck''}" "''echo hi  # inline\<newline>''"]
      strip_shell_comments_lines[of _ "{''shellcheck''}" "''# plain comment\<newline>''"]
      e c1 c2 c3
    by (simp add: sublist_def)
qed

section \<open>Properties of the Python stripper\<close>

lemma splitlines_Nil_iff: "splitlines s = [] \<longleftrightarrow> s = []"
  by (induction s rule: splitlines.induct) (auto split: list.splits)

lemma concat_splitlines: "concat (splitlines s) = s"
proof (induction s rule: splitlines.induct)
  case 1
  show ?case by simp
next
  case (2 c)
  show ?case by simp
next
  case (3 c d cs)
  show ?case
  proof (cases "c = CR \<and> d = NL")
    case True
    with 3 show ?thesis by simp
  next
    case False
    note nf = False
    show ?thesis
    proof (cases "is_linebreak c")
      case True
      with nf 3 show ?thesis by auto
    next
      case False
      with nf 3 have ih: "concat (splitlines (d # cs)) = d # cs" by auto
      obtain l ls where sp: "splitlines (d # cs) = l # ls"
        using splitlines_Nil_iff[of "d # cs"] by (cases "splitlines (d # cs)") auto
      from ih sp nf False show ?thesis by auto
    qed
  qed
qed

lemma strip_python_cases:
  "strip_python_comments tokenize untokenize source K =
     (case snd (tokenize (py_remaining source)) of
        Some e \<Rightarrow> if e = TokenError then Inr source else Inl e
      | None \<Rightarrow>
         (case untokenize (filter (\<lambda>tok. tok_type tok = COMMENT \<longrightarrow>
                               should_keep_py_comment (tok_string tok) K)
                             (fst (tokenize (py_remaining source)))) of
            Inl e \<Rightarrow> Inr source
          | Inr processed_text \<Rightarrow>
              Inr (concat (fst (preserved_prefix (splitlines source))) @
                   cleanup_empty_lines processed_text)))"
proof -
  have f: "(\<lambda>tok. if tok_type tok = COMMENT then should_keep_py_comment (tok_string tok) K else True)
      = (\<lambda>tok. tok_type tok = COMMENT \<longrightarrow> should_keep_py_comment (tok_string tok) K)"
    by auto
  show ?thesis
    unfolding strip_python_comments_def py_remaining_def Let_def f
    by (auto split: prod.splits option.splits py_exception.splits sum.splits)
qed

text \<open>
  Claim C1. When the tokenizer raises \<^const>\<open>TokenError\<close> (an unterminated triple-quoted
  string, an unclosed bracket) the stripper returns the source unchanged. Any other exception
  of the tokenizer leaves the stripper: line 107 of the source catches
  \<^verbatim>\<open>tokenize.TokenError\<close> only, and Python's tokenizer reports an inconsistent dedent with
  \<^verbatim>\<open>IndentationError\<close>, which is not a \<^verbatim>\<open>TokenError\<close>.
\<close>

theorem strip_python_tokenize_failure:
  "snd (tokenize (py_remaining source)) = Some e \<Longrightarrow>
   strip_python_comments tokenize untokenize source K =
     (if e = TokenError then Inr source else Inl e)"
  by (simp add: strip_python_cases)

theorem strip_python_tokenize_failure_witness:
  "strip_python_comments
     (\<lambda>t. ([\<lparr>tok_type = OTHER, tok_string = ''if'', tok_start = (1, 0), tok_end = (1, 2),
                 tok_line = ''if x:\<newline>''\<rparr>], Some IndentationError))
     (\<lambda>toks. Inr (concat (map tok_string toks)))
     ''if x:\<newline>        a = 1\<newline>    b = 2\<newline>'' {''noqa''}
   = Inl IndentationError"
  using strip_python_tokenize_failure[of
     "\<lambda>t. ([\<lparr>tok_type = OTHER, tok_string = ''if'', tok_start = (1, 0), tok_end = (1, 2),
                 tok_line = ''if x:\<newline>''\<rparr>], Some IndentationError)"
     "''if x:\<newline>        a = 1\<newline>    b = 2\<newline>''" IndentationError
     "\<lambda>toks. Inr (concat (map tok_string toks))" "{''noqa''}"]
  by simp

lemma preserved_prefix_take:
  "fst (preserved_prefix lines) = take (snd (preserved_prefix lines)) lines"
  by (cases lines) (auto simp: preserved_prefix_def Let_def take_Suc_conv_app_nth split: prod.splits)

lemma strip_python_prefix:
  assumes "strip_python_comments tokenize untokenize source K = Inr out"
  shows "prefix (concat (fst (preserved_prefix (splitlines source)))) out"
proof -
  let ?ls = "splitlines source"
  have "prefix (concat (fst (preserved_prefix ?ls))) source"
  proof -
    have "source = concat (take (snd (preserved_prefix ?ls)) ?ls) @ concat (drop (snd (preserved_prefix ?ls)) ?ls)"
      by (metis append_take_drop_id concat_append concat_splitlines)
    then show ?thesis by (metis preserved_prefix_take prefixI)
  qed
  with assms show ?thesis
    by (auto simp: strip_python_cases split: option.splits if_splits sum.splits)
qed

lemma preserved_prefix_cases:
  "preserved_prefix lines =
     (if lines \<noteq> [] \<and> has_shebang (lines ! 0)
      then (if 1 < length lines \<and> has_encoding_cookie (lines ! 1)
            then ([lines ! 0, lines ! 1], 2) else ([lines ! 0], 1))
      else (if lines \<noteq> [] \<and> has_encoding_cookie (lines ! 0)
            then ([lines ! 0], 1) else ([], 0)))"
  by (auto simp: preserved_prefix_def)

text \<open>
  Claim C5. Whenever the stripper returns a text, that text begins with the shebang line
  (a first line that starts with \<^verbatim>\<open>#!\<close>), followed by the encoding line when the next
  line (else the first line) matches the cookie pattern; these lines are not part of the text
  that is tokenized, and the keyword set plays no part in this.
\<close>

theorem strip_python_keeps_prefix:
  assumes "strip_python_comments tokenize untokenize source K = Inr out"
    and "lines = splitlines source"
  shows "(lines \<noteq> [] \<and> has_shebang (lines ! 0) \<longrightarrow> prefix (lines ! 0) out) \<and>
   (lines \<noteq> [] \<and> has_shebang (lines ! 0) \<and> 1 < length lines \<and> has_encoding_cookie (lines ! 1) \<longrightarrow>
      prefix (lines ! 0 @ lines ! 1) out \<and> py_remaining source = concat (drop 2 lines)) \<and>
   (lines \<noteq> [] \<and> has_shebang (lines ! 0) \<and> \<not> (1 < length lines \<and> has_encoding_cookie (lines ! 1)) \<longrightarrow>
      py_remaining source = concat (drop 1 lines)) \<and>
   (lines \<noteq> [] \<and> \<not> has_shebang (lines ! 0) \<and> has_encoding_cookie (lines ! 0) \<longrightarrow>
      prefix (lines ! 0) out \<and> py_remaining source = concat (drop 1 lines)) \<and>
   (\<forall>tokenize'. tokenize' (py_remaining source) = tokenize (py_remaining source) \<longrightarrow>
      strip_python_comments tokenize' untokenize source K = Inr out)"
proof -
  have p: "prefix (concat (fst (preserved_prefix lines))) out"
    using strip_python_prefix[OF assms(1)] assms(2) by simp
  have r: "py_remaining source = concat (drop (snd (preserved_prefix lines)) lines)"
    by (simp add: py_remaining_def assms(2) Let_def)
  have t: "\<forall>tokenize'. tokenize' (py_remaining source) = tokenize (py_remaining source) \<longrightarrow>
      strip_python_comments tokenize' untokenize source K = Inr out"
  proof (intro allI impI)
    fix tokenize' :: tokenizer
    assume eq: "tokenize' (py_remaining source) = tokenize (py_remaining source)"
    have "strip_python_comments tokenize' untokenize source K =
        strip_python_comments tokenize untokenize source K"
      by (simp only: strip_python_cases eq)
    with assms(1) show "strip_python_comments tokenize' untokenize source K = Inr out"
      by simp
  qed
  have a: "lines \<noteq> [] \<and> has_shebang (lines ! 0) \<longrightarrow> prefix (lines ! 0) out"
    using p by (auto simp: preserved_prefix_cases split: if_splits dest: append_prefixD)
  have b: "lines \<noteq> [] \<and> has_shebang (lines ! 0) \<and> 1 < length lines \<and> has_encoding_cookie (lines ! 1) \<longrightarrow>
      prefix (lines ! 0 @ lines ! 1) out \<and> py_remaining source = concat (drop 2 lines)"
    using p r by (auto simp: preserved_prefix_cases split: if_splits)
  have c: "lines \<noteq> [] \<and> has_shebang (lines ! 0) \<and> \<not> (1 < length lines \<and> has_encoding_cookie (lines ! 1)) \<longrightarrow>
      py_remaining source = concat (drop 1 lines)"
    using r by (auto simp: preserved_prefix_cases split: if_splits)
  have d: "lines \<noteq> [] \<and> \<not> has_shebang (lines ! 0) \<and> has_encoding_cookie (lines ! 0) \<longrightarrow>
      prefix (lines ! 0) out \<and> py_remaining source = concat (drop 1 lines)"
    using p r by (auto simp: preserved_prefix_cases split: if_splits)
  from a b c d t show ?thesis by blast
qed

theorem strip_python_keeps_prefix_witness:
  "strip_python_comments
     (\<lambda>t. ([\<lparr>tok_type = OTHER, tok_string = ''x = 1  '', tok_start = (1, 0), tok_end = (1, 7),
                 tok_line = ''x = 1  # note\<newline>''\<rparr>,
              \<lparr>tok_type = COMMENT, tok_string = ''# note'', tok_start = (1, 7), tok_end = (1, 13),
                 tok_line = ''x = 1  # note\<newline>''\<rparr>,
              \<lparr>tok_type = OTHER, tok_string = ''\<newline>'', tok_start = (1, 13), tok_end = (1, 14),
                 tok_line = ''x = 1  # note\<newline>''\<rparr>], None))
     (\<lambda>toks. Inr (concat (map tok_string toks)))
     ''#!/usr/bin/env python3\<newline># -*- coding: utf-8 -*-\<newline>x = 1  # note\<newline>'' {}
   = Inr ''#!/usr/bin/env python3\<newline># -*- coding: utf-8 -*-\<newline>x = 1\<newline>'' \<and>
   prefix (''#!/usr/bin/env python3\<newline>'' @ ''# -*- coding: utf-8 -*-\<newline>'')
     ''#!/usr/bin/env python3\<newline># -*- coding: utf-8 -*-\<newline>x = 1\<newline>''"
proof -
  let ?tk = "\<lambda>t::string. ([\<lparr>tok_type = OTHER, tok_string = ''x = 1  '', tok_start = (1::nat, 0::nat), tok_end = (1::nat, 7::nat),
                 tok_line = ''x = 1  # note\<newline>''\<rparr>,
              \<lparr>tok_type = COMMENT, tok_string = ''# note'', tok_start = (1, 7), tok_end = (1, 13),
                 tok_line = ''x = 1  # note\<newline>''\<rparr>,
              \<lparr>tok_type = OTHER, tok_string = ''\<newline>'', tok_start = (1, 13), tok_end = (1, 14),
                 tok_line = ''x = 1  # note\<newline>''\<rparr>], None :: py_exception option)"
  let ?un = "\<lambda>toks :: token list. (Inr (concat (map tok_string toks)) :: py_exception + string)"
  let ?src = "''#!/usr/bin/env python3\<newline># -*- coding: utf-8 -*-\<newline>x = 1  # note\<newline>''"
  let ?out = "''#!/usr/bin/env python3\<newline># -*- coding: utf-8 -*-\<newline>x = 1\<newline>''"
  have e: "strip_python_comments ?tk ?un ?src {} = Inr ?out"
    by code_simp
  have l: "splitlines ?src =
    [''#!/usr/bin/env python3\<newline>'', ''# -*- coding: utf-8 -*-\<newline>'', ''x = 1  # note\<newline>'']"
    by code_simp
  have h0: "has_shebang ''#!/usr/bin/env python3\<newline>''"
    by code_simp
  have h1: "has_encoding_cookie ''# -*- coding: utf-8 -*-\<newline>''"
    by code_simp
  show ?thesis
    using strip_python_keeps_prefix[OF e l[symmetric]] e h0 h1 by simp
qed

section \<open>Properties of the change-aware writer\<close>

text \<open>
  Claim C8, as the code has it. \<^const>\<open>write_if_changed\<close> returns \<^verbatim>\<open>False\<close> exactly when
  the file reads and its text equals the new content, and then leaves the file system as it
  is. A dry run never changes the file system and returns whether the two differ. Without
  dry run and with a difference (an unreadable file counts as one), the file is written and
  \<^verbatim>\<open>True\<close> returned when the write succeeds; when the write fails its exception leaves
  the function. Whenever the call without dry run returns, the dry run returns the same.
\<close>

theorem write_if_changed_verdict:
  "(fst (write_if_changed fs p new_content dry_run) = Inr False \<longleftrightarrow>
      read_text fs p = Inr new_content) \<and>
   (read_text fs p = Inr new_content \<longrightarrow>
      write_if_changed fs p new_content dry_run = (Inr False, fs)) \<and>
   write_if_changed fs p new_content True = (Inr (read_text fs p \<noteq> Inr new_content), fs) \<and>
   (read_text fs p \<noteq> Inr new_content \<longrightarrow>
      write_if_changed fs p new_content False =
        (if can_write fs p
         then (Inr True, fs\<lparr>stored := (stored fs)(p := Text new_content)\<rparr>)
         else (Inl OSError, fs))) \<and>
   (\<forall>verdict. fst (write_if_changed fs p new_content False) = Inr verdict \<longrightarrow>
      fst (write_if_changed fs p new_content True) = Inr verdict)"
  by (cases "read_text fs p")
     (auto simp: write_if_changed_def write_text_def Let_def split: sum.splits)

theorem write_if_changed_verdict_witness:
  "write_if_changed locked_fs ''a.py'' ''x = 1\<newline>'' True = (Inr True, locked_fs) \<and>
   write_if_changed locked_fs ''a.py'' ''x = 1\<newline>'' False = (Inl OSError, locked_fs)"
proof -
  have r: "read_text locked_fs ''a.py'' = Inl OSError"
    by (simp add: read_text_def locked_fs_def)
  have w: "\<not> can_write locked_fs ''a.py''"
    by (simp add: locked_fs_def)
  show ?thesis
    using write_if_changed_verdict[of locked_fs "''a.py''" "''x = 1\<newline>''" False] r w
    by simp
qed

text \<open>
  Claim C8 as the specification words it says that a file that cannot be read is always
  reported as changed. Without dry run the function then writes, and a failing write raises:
  nothing is returned.
\<close>

theorem write_if_changed_unreadable_counterexample:
  "\<not> (read_text locked_fs ''a.py'' = Inl OSError \<longrightarrow>
        fst (write_if_changed locked_fs ''a.py'' ''x = 1\<newline>'' False) = Inr True)"
  by (simp add: write_if_changed_def write_text_def read_text_def locked_fs_def)

section \<open>Properties of the HTML, CSS and JS strippers\<close>

subsection \<open>The block-comment pass deletes the first closed span, over and over\<close>

lemma find_after_find_sub:
  "find_after cls u = map_option (\<lambda>j. drop (j + length cls) u) (find_sub cls u)"
  by (induction u) (auto simp: option.map_comp comp_def)

lemma find_after_None_drop: "find_after cls u = None \<Longrightarrow> find_after cls (drop k u) = None"
proof (induction k arbitrary: u)
  case 0
  then show ?case by simp
next
  case (Suc k)
  show ?case
  proof (cases u)
    case Nil
    with Suc.prems show ?thesis by simp
  next
    case (Cons c cs)
    with Suc.prems have "find_after cls cs = None" by (simp split: if_splits)
    with Suc.IH Cons show ?thesis by simp
  qed
qed

lemma sub_delimited_no_opener: "find_sub opn s = None \<Longrightarrow> sub_delimited opn cls s = s"
  by (induction s) (auto split: if_splits)

lemma sub_delimited_no_closer:
  "find_after cls (drop (length opn) t) = None \<Longrightarrow> sub_delimited opn cls t = t"
proof (induction t)
  case Nil
  show ?case by simp
next
  case (Cons c cs)
  have "drop (length opn) cs = drop 1 (drop (length opn) (c # cs))"
    by (simp add: drop_Suc drop_tl tl_drop)
  with Cons.prems have "find_after cls (drop (length opn) cs) = None"
    by (simp only: find_after_None_drop)
  with Cons.IH have "sub_delimited opn cls cs = cs" by simp
  with Cons.prems show ?case by simp
qed

lemma sub_delimited_first_opener:
  "find_sub opn s = Some i \<Longrightarrow>
   sub_delimited opn cls s = take i s @ sub_delimited opn cls (drop i s) \<and> prefix opn (drop i s)"
proof (induction s arbitrary: i)
  case Nil
  then show ?case by (simp split: if_splits)
next
  case (Cons c cs)
  show ?case
  proof (cases "prefix opn (c # cs)")
    case True
    with Cons.prems show ?thesis by simp
  next
    case False
    with Cons.prems obtain k where k: "find_sub opn cs = Some k" "i = Suc k" by auto
    from Cons.IH[OF k(1)] False k(2) show ?thesis by simp
  qed
qed

lemma sub_delimited_at_opener:
  assumes "opn \<noteq> []" "prefix opn t"
  shows "sub_delimited opn cls t =
     (case find_sub cls (drop (length opn) t) of
        None \<Rightarrow> t
      | Some j \<Rightarrow> sub_delimited opn cls (drop (length opn + j + length cls) t))"
proof (cases t)
  case Nil
  with assms show ?thesis by simp
next
  case (Cons c cs)
  show ?thesis
  proof (cases "find_sub cls (drop (length opn) t)")
    case None
    then have "find_after cls (drop (length opn) t) = None"
      by (simp add: find_after_find_sub)
    then show ?thesis using None by (simp add: sub_delimited_no_closer)
  next
    case (Some j)
    then have "find_after cls (drop (length opn) t) = Some (drop (length opn + j + length cls) t)"
      by (simp add: find_after_find_sub add.commute add.left_commute)
    with assms Cons Some show ?thesis by simp
  qed
qed

lemma sub_delimited_spans_spec: "sub_delimited opn cls s = spans_spec opn cls s"
proof (induction opn cls s rule: spans_spec.induct)
  case (1 opn cls s)
  show ?case
  proof (cases "opn = []")
    case True
    have "sub_delimited [] cls s = s" by (induction s) auto
    with True show ?thesis by (simp add: spans_spec.simps)
  next
    case ne: False
    show ?thesis
    proof (cases "find_sub opn s")
      case None
      with ne show ?thesis by (simp add: spans_spec.simps[of opn cls s] sub_delimited_no_opener)
    next
      case (Some i)
      note fo = sub_delimited_first_opener[OF Some, of cls]
      have at: "sub_delimited opn cls (drop i s) =
        (case find_sub cls (drop (length opn) (drop i s)) of
           None \<Rightarrow> drop i s
         | Some j \<Rightarrow> sub_delimited opn cls (drop (length opn + j + length cls) (drop i s)))"
        using fo ne by (intro sub_delimited_at_opener) auto
      show ?thesis
      proof (cases "find_sub cls (drop (i + length opn) s)")
        case None
        then have "sub_delimited opn cls (drop i s) = drop i s"
          using at by (simp add: add.commute)
        with fo have "sub_delimited opn cls s = s" by simp
        with ne Some None show ?thesis by (simp add: spans_spec.simps[of opn cls s])
      next
        case (Some j)
        have ih: "sub_delimited opn cls (drop (i + length opn + j + length cls) s) =
            spans_spec opn cls (drop (i + length opn + j + length cls) s)"
          using "1.IH"[OF ne \<open>find_sub opn s = Some i\<close> Some] .
        have "sub_delimited opn cls (drop i s) =
            sub_delimited opn cls (drop (i + length opn + j + length cls) s)"
          using at Some by (simp add: add.commute add.left_commute)
        with fo ih have "sub_delimited opn cls s =
            take i s @ spans_spec opn cls (drop (i + length opn + j + length cls) s)"
          by simp
        with ne \<open>find_sub opn s = Some i\<close> Some show ?thesis
          by (simp add: spans_spec.simps[of opn cls s])
      qed
    qed
  qed
qed


subsection \<open>The line-comment pass cuts every line at its first unguarded double slash\<close>

lemma prefix_slashes: "prefix ''//'' (c # cs) \<longleftrightarrow> c = CHR ''/'' \<and> cs \<noteq> [] \<and> hd cs = CHR ''/''"
  by (cases cs) auto

lemma dropWhile_to_NL:
  "NL \<notin> set cs \<Longrightarrow> dropWhile (\<lambda>x. x \<noteq> NL) (cs @ NL # rest) = NL # rest"
  by (induction cs) auto

lemma dropWhile_no_NL: "NL \<notin> set cs \<Longrightarrow> dropWhile (\<lambda>x. x \<noteq> NL) cs = []"
  by (induction cs) auto

lemma find_map_Suc: "find P (map Suc xs) = map_option Suc (find (\<lambda>i. P (Suc i)) xs)"
  by (induction xs) auto

lemma slc_match:
  "prefix ''//'' (c # cs) \<Longrightarrow> prev \<noteq> Some CHR '':'' \<Longrightarrow>
   sub_line_comments prev (c # cs) =
     sub_line_comments (Some (last (c # takeWhile (\<lambda>x. x \<noteq> NL) cs))) (dropWhile (\<lambda>x. x \<noteq> NL) cs)"
  by (simp only: sub_line_comments.simps simp_thms if_True)

lemma slc_copy:
  "\<not> (prefix ''//'' (c # cs) \<and> prev \<noteq> Some CHR '':'') \<Longrightarrow>
   sub_line_comments prev (c # cs) = c # sub_line_comments (Some c) cs"
  by (simp only: sub_line_comments.simps if_False)

lemma slc_NL: "sub_line_comments prev (NL # rest) = NL # sub_line_comments (Some NL) rest"
  by simp

lemma cut_match:
  "prefix ''//'' (c # cs) \<Longrightarrow> prev \<noteq> Some CHR '':'' \<Longrightarrow> cut_line prev (c # cs) = []"
  by (simp only: cut_line.simps simp_thms if_True)

lemma cut_copy:
  "\<not> (prefix ''//'' (c # cs) \<and> prev \<noteq> Some CHR '':'') \<Longrightarrow>
   cut_line prev (c # cs) = c # cut_line (Some c) cs"
  by (simp only: cut_line.simps if_False)

lemma sub_line_comments_line:
  "NL \<notin> set l \<Longrightarrow>
   sub_line_comments prev (l @ NL # rest) = cut_line prev l @ NL # sub_line_comments (Some NL) rest"
proof (induction l arbitrary: prev)
  case Nil
  show ?case by (simp only: append_Nil slc_NL cut_line.simps)
next
  case (Cons c cs)
  from Cons.prems have nl: "NL \<notin> set cs" and c: "c \<noteq> NL" by auto
  have pre: "prefix ''//'' (c # cs @ NL # rest) \<longleftrightarrow> prefix ''//'' (c # cs)"
    by (cases cs) auto
  have dw: "dropWhile (\<lambda>x. x \<noteq> NL) (cs @ NL # rest) = NL # rest"
    using nl by (rule dropWhile_to_NL)
  show ?case
  proof (cases "prefix ''//'' (c # cs) \<and> prev \<noteq> Some CHR '':''")
    case True
    then have m: "prefix ''//'' (c # cs @ NL # rest)" and g: "prev \<noteq> Some CHR '':''"
      using pre by blast+
    have "sub_line_comments prev (c # cs @ NL # rest) =
        sub_line_comments (Some (last (c # takeWhile (\<lambda>x. x \<noteq> NL) (cs @ NL # rest)))) (NL # rest)"
      using slc_match[OF m g] by (simp only: dw)
    also have "\<dots> = NL # sub_line_comments (Some NL) rest" by (rule slc_NL)
    finally have "sub_line_comments prev (c # cs @ NL # rest) = NL # sub_line_comments (Some NL) rest" .
    moreover have "cut_line prev (c # cs) = []"
      using True by (intro cut_match) blast+
    ultimately show ?thesis by (simp only: append_Cons append_Nil)
  next
    case False
    then have nm: "\<not> (prefix ''//'' (c # cs @ NL # rest) \<and> prev \<noteq> Some CHR '':'')"
      using pre by blast
    have "sub_line_comments prev (c # cs @ NL # rest) = c # sub_line_comments (Some c) (cs @ NL # rest)"
      using nm by (rule slc_copy)
    moreover have "cut_line prev (c # cs) = c # cut_line (Some c) cs"
      using False by (rule cut_copy)
    ultimately show ?thesis using Cons.IH[OF nl, of "Some c"] by (simp only: append_Cons)
  qed
qed

lemma sub_line_comments_last_line:
  "NL \<notin> set l \<Longrightarrow> sub_line_comments prev l = cut_line prev l"
proof (induction l arbitrary: prev)
  case Nil
  show ?case by simp
next
  case (Cons c cs)
  from Cons.prems have nl: "NL \<notin> set cs" by auto
  then have dw: "dropWhile (\<lambda>x. x \<noteq> NL) cs = []" by (rule dropWhile_no_NL)
  show ?case
  proof (cases "prefix ''//'' (c # cs) \<and> prev \<noteq> Some CHR '':''")
    case True
    then have m: "prefix ''//'' (c # cs)" and g: "prev \<noteq> Some CHR '':''" by blast+
    have "sub_line_comments prev (c # cs) = []"
      using slc_match[OF m g] by (simp only: dw sub_line_comments.simps(1))
    moreover have "cut_line prev (c # cs) = []" using m g by (rule cut_match)
    ultimately show ?thesis by simp
  next
    case False
    have "sub_line_comments prev (c # cs) = c # sub_line_comments (Some c) cs"
      using False by (rule slc_copy)
    moreover have "cut_line prev (c # cs) = c # cut_line (Some c) cs"
      using False by (rule cut_copy)
    ultimately show ?thesis using Cons.IH[OF nl, of "Some c"] by simp
  qed
qed

lemma cut_line_prev: "prev \<noteq> Some CHR '':'' \<Longrightarrow> cut_line prev l = cut_line None l"
  by (cases l) auto

lemma split_nl_append:
  "NL \<notin> set l \<Longrightarrow> split_nl (l @ NL # rest) = l # split_nl rest"
  by (induction l) auto

lemma split_nl_single: "NL \<notin> set l \<Longrightarrow> split_nl l = [l]"
  by (induction l) auto

lemma split_nl_nonempty': "split_nl t \<noteq> []"
  by (induction t) (auto split: list.splits)


lemma sub_line_comments_lines:
  "sub_line_comments prev t =
     join_nl (cut_line prev (hd (split_nl t)) # map (cut_line None) (tl (split_nl t)))"
proof (induction t arbitrary: prev rule: length_induct)
  case (1 t)
  let ?l = "takeWhile (\<lambda>x. x \<noteq> NL) t"
  have nl: "NL \<notin> set ?l" by (auto dest: set_takeWhileD)
  show ?case
  proof (cases "dropWhile (\<lambda>x. x \<noteq> NL) t")
    case Nil
    then have "t = ?l" by (metis append_Nil2 takeWhile_dropWhile_id)
    then have "NL \<notin> set t" using nl by simp
    then show ?thesis by (simp add: sub_line_comments_last_line split_nl_single)
  next
    case (Cons d rest)
    then have d: "d = NL" using hd_dropWhile[of "\<lambda>x. x \<noteq> NL" t] by auto
    have t: "t = ?l @ NL # rest"
      using Cons d by (metis takeWhile_dropWhile_id)
    then have "length rest < length t"
      by (metis add_Suc_right length_Cons length_append less_add_Suc2)
    with 1 have ih: "sub_line_comments (Some NL) rest =
      join_nl (cut_line (Some NL) (hd (split_nl rest)) # map (cut_line None) (tl (split_nl rest)))"
      by blast
    obtain m ms where sp: "split_nl rest = m # ms"
      using split_nl_nonempty'[of rest] by (cases "split_nl rest") auto
    have "sub_line_comments prev (?l @ NL # rest) =
        cut_line prev ?l @ NL # sub_line_comments (Some NL) rest"
      using nl by (rule sub_line_comments_line)
    moreover have "split_nl (?l @ NL # rest) = ?l # split_nl rest"
      using nl by (rule split_nl_append)
    moreover have "cut_line (Some NL) m = cut_line None m"
      by (rule cut_line_prev) simp
    ultimately have "sub_line_comments prev (?l @ NL # rest) =
      join_nl (cut_line prev (hd (split_nl (?l @ NL # rest))) #
               map (cut_line None) (tl (split_nl (?l @ NL # rest))))"
      using ih sp by simp
    with t show ?thesis by simp
  qed
qed

lemma find_upt_Suc:
  "find P [0..<Suc n] = (if P 0 then Some 0 else map_option Suc (find (\<lambda>i. P (Suc i)) [0..<n]))"
proof -
  have "[0..<Suc n] = 0 # map Suc [0..<n]"
    by (simp add: upt_conv_Cons map_Suc_upt del: upt_Suc)
  then show ?thesis by (simp add: find_map_Suc del: upt_Suc)
qed

lemma cut_line_find:
  "cut_line prev l =
     (case find (comment_start_after prev l) [0..<length l] of None \<Rightarrow> l | Some i \<Rightarrow> take i l)"
proof (induction l arbitrary: prev)
  case Nil
  show ?case by simp
next
  case (Cons c cs)
  have p0: "comment_start_after prev (c # cs) 0 \<longleftrightarrow> prefix ''//'' (c # cs) \<and> prev \<noteq> Some CHR '':''"
    by (cases cs) (auto simp: comment_start_after_def)
  have ps: "(\<lambda>i. comment_start_after prev (c # cs) (Suc i)) = comment_start_after (Some c) cs"
    by (rule ext) (auto simp: comment_start_after_def)
  show ?case
    unfolding length_Cons find_upt_Suc p0 ps
    using Cons.IH[of "Some c"]
    by (auto split: option.splits)
qed

lemma comment_start_after_None: "comment_start_after None l = comment_start l"
  by (rule ext) (auto simp: comment_start_after_def comment_start_def)

lemma cut_line_spec: "cut_line None = js_line_spec"
  by (rule ext) (simp add: cut_line_find comment_start_after_None js_line_spec_def)

lemma sub_line_comments_spec: "sub_line_comments None t = line_comments_spec t"
proof -
  obtain m ms where sp: "split_nl t = m # ms"
    using split_nl_nonempty'[of t] by (cases "split_nl t") auto
  show ?thesis
    unfolding line_comments_spec_def sub_line_comments_lines[of None t] sp
    by (simp add: cut_line_spec)
qed


text \<open>
  Claim C7. \<^const>\<open>strip_js_comments\<close> first deletes the block spans (from the first
  \<^verbatim>\<open>/*\<close> through the nearest \<^verbatim>\<open>*/\<close> behind it, again and again, newlines included), then
  cuts every line of what is left at its first \<^verbatim>\<open>//\<close> that does not follow a colon, and
  normalizes the result. A \<^verbatim>\<open>//\<close> directly behind a colon never starts a cut.
\<close>

theorem strip_js_comments_spec:
  "strip_js_comments s =
     cleanup_empty_lines (line_comments_spec (spans_spec ''/*'' ''*/'' s))"
  by (simp add: strip_js_comments_def Let_def sub_delimited_spans_spec sub_line_comments_spec)

theorem strip_js_comments_spec_witness:
  "strip_js_comments ''a = 1; // see http://x\<newline>u = http://y; /* b\<newline> // */ z'' =
     ''a = 1;\<newline>u = http://y;  z\<newline>'' \<and>
   spans_spec ''/*'' ''*/'' ''a = 1; // see http://x\<newline>u = http://y; /* b\<newline> // */ z'' =
     ''a = 1; // see http://x\<newline>u = http://y;  z'' \<and>
   line_comments_spec ''a = 1; // see http://x\<newline>u = http://y;  z'' =
     ''a = 1; \<newline>u = http://y;  z''"
proof -
  have b: "spans_spec ''/*'' ''*/'' ''a = 1; // see http://x\<newline>u = http://y; /* b\<newline> // */ z'' =
     ''a = 1; // see http://x\<newline>u = http://y;  z''"
    by code_simp
  have l: "line_comments_spec ''a = 1; // see http://x\<newline>u = http://y;  z'' =
     ''a = 1; \<newline>u = http://y;  z''"
    by code_simp
  have c: "cleanup_empty_lines ''a = 1; \<newline>u = http://y;  z'' = ''a = 1;\<newline>u = http://y;  z\<newline>''"
    by code_simp
  show ?thesis
    using strip_js_comments_spec[of "''a = 1; // see http://x\<newline>u = http://y; /* b\<newline> // */ z''"]
    by (simp only: b l c simp_thms)
qed

subsection \<open>A span is deleted only up to a closing delimiter\<close>

lemma closers_within_ends_within:
  assumes "cls \<noteq> []"
  shows "closers_within cls p u \<longleftrightarrow> ends_within cls p u"
proof
  assume c: "closers_within cls p u"
  show "ends_within cls p u"
    unfolding ends_within_def
  proof (intro allI impI)
    fix i
    assume pr: "prefix cls (drop i (p @ u))"
    with assms have "drop i (p @ u) \<noteq> []" by auto
    then have "i < length (p @ u)" by (meson drop_all not_le_imp_less)
    then have "i \<in> set [0..<Suc (length (p @ u))]" by simp
    with c pr show "i + length cls \<le> length p"
      unfolding closers_within_def by blast
  qed
next
  assume "ends_within cls p u"
  then show "closers_within cls p u"
    unfolding ends_within_def closers_within_def by blast
qed

lemma ends_within_tl: "ends_within cls (c # p) u \<Longrightarrow> ends_within cls p u"
  unfolding ends_within_def
proof (intro allI impI)
  fix i
  assume h: "\<forall>i. prefix cls (drop i ((c # p) @ u)) \<longrightarrow> i + length cls \<le> length (c # p)"
    and pr: "prefix cls (drop i (p @ u))"
  from pr have "prefix cls (drop (Suc i) ((c # p) @ u))" by simp
  with h have "Suc i + length cls \<le> length (c # p)" by blast
  then show "i + length cls \<le> length p" by simp
qed

lemma ends_within_drop: "ends_within cls p u \<Longrightarrow> ends_within cls (drop k p) u"
proof (induction k arbitrary: p)
  case 0
  then show ?case by simp
next
  case (Suc k)
  show ?case
  proof (cases p)
    case Nil
    with Suc.prems show ?thesis by simp
  next
    case (Cons c cs)
    with Suc.prems have "ends_within cls cs u" by (auto dest: ends_within_tl)
    with Suc.IH Cons show ?thesis by simp
  qed
qed

lemma find_after_None_iff: "cls \<noteq> [] \<Longrightarrow> (\<forall>i. \<not> prefix cls (drop i u)) \<Longrightarrow> find_after cls u = None"
proof (induction u)
  case Nil
  then show ?case by simp
next
  case (Cons c cs)
  from Cons.prems(2) have "\<not> prefix cls (drop 0 (c # cs))" by blast
  then have np: "\<not> prefix cls (c # cs)" by simp
  have "\<forall>i. \<not> prefix cls (drop i cs)"
  proof
    fix i
    from Cons.prems(2) have "\<not> prefix cls (drop (Suc i) (c # cs))" by blast
    then show "\<not> prefix cls (drop i cs)" by simp
  qed
  with Cons.IH Cons.prems(1) have "find_after cls cs = None" by blast
  with np show ?case by simp
qed

lemma ends_within_Nil: "cls \<noteq> [] \<Longrightarrow> ends_within cls [] u \<Longrightarrow> find_after cls u = None"
  by (rule find_after_None_iff) (auto simp: ends_within_def)

lemma drop_append_le: "n \<le> length xs \<Longrightarrow> drop n (xs @ ys) = drop n xs @ ys"
  by simp

lemma find_after_append:
  "cls \<noteq> [] \<Longrightarrow> ends_within cls p u \<Longrightarrow>
   find_after cls (p @ u) = map_option (\<lambda>r. r @ u) (find_after cls p)"
proof (induction p)
  case Nil
  then show ?case by (simp add: ends_within_Nil)
next
  case (Cons c cs)
  have ih: "find_after cls (cs @ u) = map_option (\<lambda>r. r @ u) (find_after cls cs)"
    using Cons.IH Cons.prems by (auto dest: ends_within_tl)
  show ?case
  proof (cases "prefix cls (c # cs @ u)")
    case True
    then have "prefix cls (drop 0 ((c # cs) @ u))" by simp
    with Cons.prems(2) have "0 + length cls \<le> length (c # cs)"
      unfolding ends_within_def by blast
    then have len: "length cls \<le> length (c # cs)" by simp
    with True have p: "prefix cls (c # cs)"
      by (metis append_Cons prefix_length_prefix prefixI)
    have "drop (length cls) (c # cs @ u) = drop (length cls) (c # cs) @ u"
      using drop_append_le[OF len, of u] by (simp only: append_Cons)
    with True p show ?thesis by simp
  next
    case False
    then have "\<not> prefix cls (c # cs)"
      by (metis append_Cons prefix_prefix)
    with False ih show ?thesis by simp
  qed
qed

lemma sd_match:
  "opn \<noteq> [] \<Longrightarrow> prefix opn (c # cs) \<Longrightarrow>
   find_after cls (drop (length opn) (c # cs)) = Some rest \<Longrightarrow>
   sub_delimited opn cls (c # cs) = sub_delimited opn cls rest"
  by (simp only: sub_delimited.simps simp_thms if_True option.case)

lemma sd_nomatch:
  "opn \<noteq> [] \<Longrightarrow> prefix opn (c # cs) \<Longrightarrow>
   find_after cls (drop (length opn) (c # cs)) = None \<Longrightarrow>
   sub_delimited opn cls (c # cs) = c # sub_delimited opn cls cs"
  by (simp only: sub_delimited.simps simp_thms if_True option.case)

lemma sd_copy:
  "\<not> (opn \<noteq> [] \<and> prefix opn (c # cs)) \<Longrightarrow>
   sub_delimited opn cls (c # cs) = c # sub_delimited opn cls cs"
  by (simp only: sub_delimited.simps if_False)

lemma find_sub_prefix: "find_sub p s = Some i \<Longrightarrow> prefix p (drop i s)"
  by (induction s arbitrary: i) (auto split: if_splits)

lemma sub_delimited_append:
  assumes cls: "cls \<noteq> []"
  shows "ends_within cls pre u \<Longrightarrow>
    sub_delimited opn cls (pre @ u) = sub_delimited opn cls pre @ u"
proof (induction pre rule: length_induct)
  case (1 pre)
  note H = "1.prems"
  show ?case
  proof (cases pre)
    case Nil
    with H cls have "find_after cls u = None" by (simp add: ends_within_Nil)
    then have "find_after cls (drop (length opn) u) = None" by (rule find_after_None_drop)
    then have "sub_delimited opn cls u = u" by (rule sub_delimited_no_closer)
    with Nil show ?thesis by simp
  next
    case (Cons c cs)
    have Hcs: "ends_within cls cs u" using H Cons by (auto dest: ends_within_tl)
    have ihcs: "sub_delimited opn cls (cs @ u) = sub_delimited opn cls cs @ u"
      using 1 Hcs Cons by simp
    show ?thesis
    proof (cases "opn \<noteq> [] \<and> prefix opn (c # cs @ u)")
      case False
      then have "\<not> (opn \<noteq> [] \<and> prefix opn (c # cs))"
        by (metis append_Cons prefix_prefix)
      then have "sub_delimited opn cls (c # cs) = c # sub_delimited opn cls cs"
        by (rule sd_copy)
      moreover have "sub_delimited opn cls (c # cs @ u) = c # sub_delimited opn cls (cs @ u)"
        using False by (rule sd_copy)
      ultimately show ?thesis using ihcs Cons by simp
    next
      case True
      then have ne: "opn \<noteq> []" and pu: "prefix opn (c # cs @ u)" by blast+
      show ?thesis
      proof (cases "prefix opn (c # cs)")
        case inside: True
        then have len: "length opn \<le> length (c # cs)" by (rule prefix_length_le)
        have dr: "drop (length opn) (c # cs @ u) = drop (length opn) (c # cs) @ u"
          using drop_append_le[OF len, of u] by (simp only: append_Cons)
        have Hd: "ends_within cls (drop (length opn) (c # cs)) u"
          using H Cons ends_within_drop by blast
        have fa: "find_after cls (drop (length opn) (c # cs @ u)) =
            map_option (\<lambda>r. r @ u) (find_after cls (drop (length opn) (c # cs)))"
          unfolding dr using cls Hd by (rule find_after_append)
        show ?thesis
        proof (cases "find_after cls (drop (length opn) (c # cs))")
          case None
          with fa have "find_after cls (drop (length opn) (c # cs @ u)) = None" by simp
          then have "sub_delimited opn cls (c # cs @ u) = c # sub_delimited opn cls (cs @ u)"
            using ne pu by (intro sd_nomatch)
          moreover have "sub_delimited opn cls (c # cs) = c # sub_delimited opn cls cs"
            using ne inside None by (rule sd_nomatch)
          ultimately show ?thesis using ihcs Cons by simp
        next
          case (Some rest)
          then obtain j where rest: "rest = drop (j + length cls) (drop (length opn) (c # cs))"
            by (auto simp: find_after_find_sub)
          have "length opn > 0" using ne by simp
          then have "length rest < length pre"
            unfolding rest Cons by simp
          moreover have "ends_within cls rest u"
            unfolding rest using Hd by (rule ends_within_drop)
          ultimately have ihr: "sub_delimited opn cls (rest @ u) = sub_delimited opn cls rest @ u"
            using 1 by blast
          from Some fa have "find_after cls (drop (length opn) (c # cs @ u)) = Some (rest @ u)"
            by simp
          then have "sub_delimited opn cls (c # cs @ u) = sub_delimited opn cls (rest @ u)"
            using ne pu by (intro sd_match)
          moreover have "sub_delimited opn cls (c # cs) = sub_delimited opn cls rest"
            using ne inside Some by (rule sd_match)
          ultimately show ?thesis using ihr Cons by simp
        qed
      next
        case outside: False
        have long: "length (c # cs) < length opn"
        proof (rule ccontr)
          assume "\<not> length (c # cs) < length opn"
          then have "length opn \<le> length (c # cs)" by simp
          with pu have "prefix opn (c # cs)"
            by (metis append_Cons prefix_length_prefix prefixI)
          with outside show False by blast
        qed
        have "find_after cls (drop (length opn) (c # cs @ u)) = None"
        proof (cases "find_after cls (drop (length opn) (c # cs @ u))")
          case None
          then show ?thesis .
        next
          case (Some r)
          then obtain j where "find_sub cls (drop (length opn) (c # cs @ u)) = Some j"
            by (auto simp: find_after_find_sub)
          then have "prefix cls (drop j (drop (length opn) (c # cs @ u)))"
            by (rule find_sub_prefix)
          then have "prefix cls (drop (j + length opn) (pre @ u))"
            unfolding Cons by (simp only: drop_drop append_Cons)
          with H have "j + length opn + length cls \<le> length pre"
            unfolding ends_within_def by blast
          with long Cons show ?thesis by simp
        qed
        then have "sub_delimited opn cls (c # cs @ u) = c # sub_delimited opn cls (cs @ u)"
          using ne pu by (intro sd_nomatch)
        moreover have "sub_delimited opn cls (c # cs) = c # sub_delimited opn cls cs"
          using outside by (intro sd_copy) blast
        ultimately show ?thesis using ihcs Cons by simp
      qed
    qed
  qed
qed


lemma strip_delimited_keeps:
  assumes "cls \<noteq> []" "closers_within cls pre u"
  shows "sub_delimited opn cls (pre @ u) = sub_delimited opn cls pre @ u"
  using assms sub_delimited_append closers_within_ends_within by blast

lemma no_closer_within: "\<not> sublist cls s \<Longrightarrow> closers_within cls [] s"
proof -
  assume n: "\<not> sublist cls s"
  have "\<not> prefix cls (drop i s)" for i
  proof
    assume "prefix cls (drop i s)"
    then have "sublist cls (drop i s)" by (rule prefix_imp_sublist)
    moreover have "sublist (drop i s) s" by (rule sublist_drop)
    ultimately have "sublist cls s" by (rule sublist_order.order_trans)
    with n show False by blast
  qed
  then show ?thesis by (simp add: closers_within_def)
qed

text \<open>
  Claim C10, as the code has it. Take an input \<^term>\<open>pre @ opener @ post\<close> in which every
  occurrence of the closing delimiter ends inside \<^term>\<open>pre\<close>: none lies in
  \<^term>\<open>opener @ post\<close> and none overlaps the opener. Then the block pass leaves the opener
  and all text behind it in place, and deletes in \<^term>\<open>pre\<close> what it deletes there anyway.
  For HTML and CSS only the normalizer follows; for JS the line-comment pass runs over the
  kept text as well. A text without any closing delimiter loses no span.
\<close>

theorem unterminated_opener_kept:
  "(closers_within ''-->'' pre (''<!--'' @ post) \<longrightarrow>
      strip_html_comments (pre @ ''<!--'' @ post) =
        cleanup_empty_lines (sub_delimited ''<!--'' ''-->'' pre @ ''<!--'' @ post)) \<and>
   (closers_within ''*/'' pre (''/*'' @ post) \<longrightarrow>
      strip_css_comments (pre @ ''/*'' @ post) =
        cleanup_empty_lines (sub_delimited ''/*'' ''*/'' pre @ ''/*'' @ post) \<and>
      strip_js_comments (pre @ ''/*'' @ post) =
        cleanup_empty_lines
          (sub_line_comments None (sub_delimited ''/*'' ''*/'' pre @ ''/*'' @ post))) \<and>
   (\<not> sublist ''-->'' s \<longrightarrow> strip_html_comments s = cleanup_empty_lines s) \<and>
   (\<not> sublist ''*/'' s \<longrightarrow>
      strip_css_comments s = cleanup_empty_lines s \<and>
      strip_js_comments s = cleanup_empty_lines (sub_line_comments None s))"
proof -
  have h: "closers_within ''-->'' pre (''<!--'' @ post) \<Longrightarrow>
      sub_delimited ''<!--'' ''-->'' (pre @ ''<!--'' @ post) =
      sub_delimited ''<!--'' ''-->'' pre @ ''<!--'' @ post"
    by (rule strip_delimited_keeps) simp_all
  have c: "closers_within ''*/'' pre (''/*'' @ post) \<Longrightarrow>
      sub_delimited ''/*'' ''*/'' (pre @ ''/*'' @ post) =
      sub_delimited ''/*'' ''*/'' pre @ ''/*'' @ post"
    by (rule strip_delimited_keeps) simp_all
  have h0: "\<not> sublist ''-->'' s \<Longrightarrow> sub_delimited ''<!--'' ''-->'' s = s"
    using strip_delimited_keeps[of "''-->''" "[]" s "''<!--''"] no_closer_within[of "''-->''" s]
    by simp
  have c0: "\<not> sublist ''*/'' s \<Longrightarrow> sub_delimited ''/*'' ''*/'' s = s"
    using strip_delimited_keeps[of "''*/''" "[]" s "''/*''"] no_closer_within[of "''*/''" s]
    by simp
  show ?thesis
    unfolding strip_html_comments_def strip_css_comments_def strip_js_comments_def Let_def
    by (intro conjI impI) (simp_all only: h c h0 c0 simp_thms)
qed

theorem unterminated_opener_kept_witness:
  "closers_within ''*/'' ''a/* b */c'' (''/*'' @ '' d'') \<and>
   strip_css_comments (''a/* b */c'' @ ''/*'' @ '' d'') = ''ac/* d\<newline>''"
proof -
  have w: "closers_within ''*/'' ''a/* b */c'' (''/*'' @ '' d'')"
    by code_simp
  have e: "cleanup_empty_lines (sub_delimited ''/*'' ''*/'' ''a/* b */c'' @ ''/*'' @ '' d'') = ''ac/* d\<newline>''"
    by code_simp
  show ?thesis
    using unterminated_opener_kept[of "''a/* b */c''" "'' d''"] w e by simp
qed

text \<open>
  Claim C10 as it is worded asks that an opener with no closing delimiter behind it stays in
  place together with the text behind it, changed by the normalizer only. In JS the
  line-comment pass still cuts that text; and in CSS an opener whose slash closes the span
  before it is consumed with that span.
\<close>

theorem unterminated_opener_counterexample:
  "\<not> (\<not> sublist ''*/'' '' //x'' \<longrightarrow>
        strip_js_comments ([] @ ''/*'' @ '' //x'') = cleanup_empty_lines ([] @ ''/*'' @ '' //x'')) \<and>
   \<not> (\<not> sublist ''*/'' [] \<longrightarrow>
        strip_css_comments (''/* *'' @ ''/*'' @ []) =
          cleanup_empty_lines (sub_delimited ''/*'' ''*/'' ''/* *'' @ ''/*'' @ []))"
proof -
  have a: "strip_js_comments ([] @ ''/*'' @ '' //x'') = ''/*\<newline>''"
    by code_simp
  have b: "cleanup_empty_lines ([] @ ''/*'' @ '' //x'') = ''/* //x\<newline>''"
    by code_simp
  have c: "strip_css_comments (''/* *'' @ ''/*'' @ []) = ''*\<newline>''"
    by code_simp
  have d: "cleanup_empty_lines (sub_delimited ''/*'' ''*/'' ''/* *'' @ ''/*'' @ []) = ''/* */*\<newline>''"
    by code_simp
  have n: "\<not> sublist ''*/'' '' //x''"
    by code_simp
  show ?thesis
    unfolding a b c d using n by simp
qed

section \<open>Idempotence of the Shell stripper\<close>

text \<open>
  The verdict on a line depends on the line without its trailing whitespace only (for
  keywords that do not end in whitespace), and the normalizer changes nothing but trailing
  whitespace and blank lines. So a second pass finds every line kept.
\<close>

lemma py_rstrip_Nil [simp]: "py_rstrip [] = []"
  by (simp add: py_rstrip_def)








lemma segs_nonempty [simp]: "segs t \<noteq> []"
  by (cases t) auto


lemma text_norm_Nil [simp]: "text_norm [] = ([], [])"
  by (simp add: text_norm_def)


































lemma lines_ok_tl: "lines_ok (l # ls) \<Longrightarrow> lines_ok ls"
  by (cases ls) simp_all




















section \<open>Idempotence of the HTML, CSS and JS strippers\<close>





























section \<open>Idempotence of the Python stripper\<close>























section \<open>Idempotence of the strippers\<close>




end
